theory Spec2Isabelle
  imports Main "HOL-Library.Word"
begin

section \<open>The ConfidentialTransmission contract\<close>

text \<open>
  A shallow embedding of the Solidity contract \<open>ConfidentialTransmission\<close> and of the
  content cipher of the front end (\<open>encryptFileWithAES\<close>, \<open>decryptFileContent\<close>).
  Solidity's \<open>uint256\<close> is a 256-bit word, an \<open>address\<close> a 160-bit word, the FHE
  handle types \<open>eaddress\<close>, \<open>euint256\<close> and their external forms are \<open>bytes32\<close>.
  A \<open>mapping\<close> is a total function whose value at a key never written is the zero
  value of its type. A \<open>string\<close> is its bytes.
\<close>

type_synonym address = "160 word"
type_synonym uint256 = "256 word"
type_synonym bytes32 = "256 word"
type_synonym bytes = "8 word list"

subsection \<open>Storage\<close>

record Message =
  encryptedSender :: bytes32
  recipient :: address
  contentCID :: string
  encryptedKey :: bytes32
  timestamp :: uint256
  isDeleted :: bool

text \<open>The value of \<open>messages[id]\<close> at an id that was never written.\<close>

definition zero_Message :: Message where
  "zero_Message =
     \<lparr>encryptedSender = 0, recipient = 0, contentCID = [], encryptedKey = 0,
      timestamp = 0, isDeleted = False\<rparr>"

datatype event =
    MessageSent uint256 address address string uint256
  | MessageRead uint256 address
  | MessageDeleted uint256 address

text \<open>
  The contract's storage, with the two effects that leave it: the grants written to
  the access-control list of the FHE runtime (\<open>FHE.allow\<close>) and the event log.
\<close>

record ledger =
  messages :: "uint256 \<Rightarrow> Message"
  receivedMessages :: "address \<Rightarrow> uint256 list"
  sentMessages :: "address \<Rightarrow> uint256 list"
  messageCount :: uint256
  acl :: "(bytes32 \<times> address) list"
  events :: "event list"

text \<open>The storage after deployment: every slot is zero.\<close>

definition init :: ledger where
  "init =
     \<lparr>messages = (\<lambda>_. zero_Message), receivedMessages = (\<lambda>_. []),
      sentMessages = (\<lambda>_. []), messageCount = 0, acl = [], events = []\<rparr>"

text \<open>What a call sees of its transaction: \<open>msg.sender\<close>, \<open>block.timestamp\<close>, \<open>address(this)\<close>.\<close>

record env =
  msg_sender :: address
  block_timestamp :: uint256
  this :: address

subsection \<open>Errors\<close>

text \<open>
  A failed \<open>require\<close> reverts with its message; the checked increment of Solidity 0.8
  panics on overflow; \<open>FHE.fromExternal\<close> reverts when the runtime rejects the proof.
  A reverted call leaves no state behind: it returns \<open>Inl\<close> and nothing else.
\<close>

datatype error = Revert string | Panic nat | InputRejected

text \<open>The error kinds of the specification, read off the revert of the contract.\<close>

datatype error_kind =
  ValidationError | AuthorizationError | StateError | ProofVerificationError | OtherError

fun kind_of :: "error \<Rightarrow> error_kind" where
  "kind_of (Revert m) =
     (if m = ''Invalid recipient'' \<or> m = ''Empty content CID'' then ValidationError
      else if m = ''Not authorized'' then AuthorizationError
      else if m = ''Message deleted'' \<or> m = ''Already deleted'' then StateError
      else OtherError)"
| "kind_of InputRejected = ProofVerificationError"
| "kind_of (Panic _) = OtherError"

subsection \<open>The FHE library\<close>

text \<open>
  \<open>FHE.fromExternal\<close> belongs to the FHE runtime, not to this contract: it is a
  parameter of the model, a function that returns the internal handle or rejects the
  proof. \<open>FHE.allow\<close> records a grant; \<open>FHE.allowThis\<close> grants to the contract itself.
\<close>

type_synonym verifier = "env \<Rightarrow> bytes32 \<Rightarrow> bytes \<Rightarrow> bytes32 option"

definition FHE_allow :: "ledger \<Rightarrow> bytes32 \<Rightarrow> address \<Rightarrow> ledger" where
  "FHE_allow s h a = s\<lparr>acl := acl s @ [(h, a)]\<rparr>"

definition FHE_allowThis :: "env \<Rightarrow> ledger \<Rightarrow> bytes32 \<Rightarrow> ledger" where
  "FHE_allowThis e s h = FHE_allow s h (this e)"

definition emit :: "ledger \<Rightarrow> event \<Rightarrow> ledger" where
  "emit s ev = s\<lparr>events := events s @ [ev]\<rparr>"

subsection \<open>The external functions\<close>

definition sendMessage ::
  "verifier \<Rightarrow> ledger \<Rightarrow> env \<Rightarrow> address \<Rightarrow> string \<Rightarrow> bytes32 \<Rightarrow> bytes \<Rightarrow> bytes32 \<Rightarrow> bytes
     \<Rightarrow> error + (uint256 \<times> ledger)" where
  "sendMessage fromExternal s e p_recipient p_contentCID p_encryptedSender p_senderProof
       p_encryptedKey p_keyProof =
     (if \<not> (p_recipient \<noteq> 0) then Inl (Revert ''Invalid recipient'')
      else if \<not> (length p_contentCID > 0) then Inl (Revert ''Empty content CID'')
      else
        case fromExternal e p_encryptedSender p_senderProof of
          None \<Rightarrow> Inl InputRejected
        | Some sender \<Rightarrow>
        (case fromExternal e p_encryptedKey p_keyProof of
          None \<Rightarrow> Inl InputRejected
        | Some key \<Rightarrow>
          let s1 = FHE_allow s sender p_recipient;
              s2 = FHE_allow s1 key p_recipient;
              s3 = FHE_allowThis e s2 sender;
              s4 = FHE_allowThis e s3 key;
              s5 = s4\<lparr>messages := (messages s4)(messageCount s4 :=
                     \<lparr>encryptedSender = sender, recipient = p_recipient,
                      contentCID = p_contentCID, encryptedKey = key,
                      timestamp = block_timestamp e, isDeleted = False\<rparr>)\<rparr>;
              s6 = s5\<lparr>receivedMessages := (receivedMessages s5)(p_recipient :=
                     receivedMessages s5 p_recipient @ [messageCount s5])\<rparr>;
              s7 = s6\<lparr>sentMessages := (sentMessages s6)(msg_sender e :=
                     sentMessages s6 (msg_sender e) @ [messageCount s6])\<rparr>;
              s8 = emit s7 (MessageSent (messageCount s7) p_recipient (msg_sender e)
                     p_contentCID (block_timestamp e));
              messageId = messageCount s8
          in if messageCount s8 = - 1 then Inl (Panic 17)
             else Inr (messageId, s8\<lparr>messageCount := messageCount s8 + 1\<rparr>)))"

definition getMessage ::
  "ledger \<Rightarrow> env \<Rightarrow> uint256 \<Rightarrow> error + (bytes32 \<times> string \<times> bytes32 \<times> uint256)" where
  "getMessage s e p_messageId =
     (let message = messages s p_messageId
      in if \<not> (\<not> isDeleted message) then Inl (Revert ''Message deleted'')
         else if \<not> (recipient message = msg_sender e) then Inl (Revert ''Not authorized'')
         else Inr (encryptedSender message, contentCID message, encryptedKey message,
                   timestamp message))"

definition getMessageMetadata ::
  "ledger \<Rightarrow> uint256 \<Rightarrow> address \<times> string \<times> uint256 \<times> bool" where
  "getMessageMetadata s p_messageId =
     (let message = messages s p_messageId
      in (recipient message, contentCID message, timestamp message, isDeleted message))"

definition getMyReceivedMessages :: "ledger \<Rightarrow> env \<Rightarrow> uint256 list" where
  "getMyReceivedMessages s e = receivedMessages s (msg_sender e)"

definition getMySentMessages :: "ledger \<Rightarrow> env \<Rightarrow> uint256 list" where
  "getMySentMessages s e = sentMessages s (msg_sender e)"

definition getReceivedMessagesOf :: "ledger \<Rightarrow> address \<Rightarrow> uint256 list" where
  "getReceivedMessagesOf s p_recipient = receivedMessages s p_recipient"

definition deleteMessage :: "ledger \<Rightarrow> env \<Rightarrow> uint256 \<Rightarrow> error + ledger" where
  "deleteMessage s e p_messageId =
     (let message = messages s p_messageId
      in if \<not> (recipient message = msg_sender e) then Inl (Revert ''Not authorized'')
         else if \<not> (\<not> isDeleted message) then Inl (Revert ''Already deleted'')
         else
           let s1 = s\<lparr>messages := (messages s)(p_messageId := message\<lparr>isDeleted := True\<rparr>)\<rparr>
           in Inr (emit s1 (MessageDeleted p_messageId (msg_sender e))))"

definition isRecipient :: "ledger \<Rightarrow> env \<Rightarrow> uint256 \<Rightarrow> bool" where
  "isRecipient s e p_messageId = (recipient (messages s p_messageId) = msg_sender e)"

definition getTotalMessages :: "ledger \<Rightarrow> uint256" where
  "getTotalMessages s = messageCount s"

subsection \<open>Transactions and histories\<close>

text \<open>
  A call of the contract's interface, and what it returns. A call that reverts leaves
  the ledger as it was; a view function never changes it. \<open>Messages\<close> and
  \<open>MessageCount\<close> are the getters of the public state variables.
\<close>

datatype call =
    SendMessage address string bytes32 bytes bytes32 bytes
  | GetMessage uint256
  | GetMessageMetadata uint256
  | GetMyReceivedMessages
  | GetMySentMessages
  | GetReceivedMessagesOf address
  | DeleteMessage uint256
  | IsRecipient uint256
  | GetTotalMessages
  | Messages uint256
  | MessageCount

datatype retval =
    RId uint256
  | RMessage "bytes32 \<times> string \<times> bytes32 \<times> uint256"
  | RMetadata "address \<times> string \<times> uint256 \<times> bool"
  | RIds "uint256 list"
  | RBool bool
  | RCount uint256
  | RStruct Message
  | RUnit

fun exec :: "verifier \<Rightarrow> ledger \<Rightarrow> env \<Rightarrow> call \<Rightarrow> ledger \<times> (error + retval)" where
  "exec V s e (SendMessage r c es sp ek kp) =
     (case sendMessage V s e r c es sp ek kp of
        Inl err \<Rightarrow> (s, Inl err)
      | Inr (i, s') \<Rightarrow> (s', Inr (RId i)))"
| "exec V s e (GetMessage i) =
     (case getMessage s e i of Inl err \<Rightarrow> (s, Inl err) | Inr m \<Rightarrow> (s, Inr (RMessage m)))"
| "exec V s e (GetMessageMetadata i) = (s, Inr (RMetadata (getMessageMetadata s i)))"
| "exec V s e GetMyReceivedMessages = (s, Inr (RIds (getMyReceivedMessages s e)))"
| "exec V s e GetMySentMessages = (s, Inr (RIds (getMySentMessages s e)))"
| "exec V s e (GetReceivedMessagesOf a) = (s, Inr (RIds (getReceivedMessagesOf s a)))"
| "exec V s e (DeleteMessage i) =
     (case deleteMessage s e i of Inl err \<Rightarrow> (s, Inl err) | Inr s' \<Rightarrow> (s', Inr RUnit))"
| "exec V s e (IsRecipient i) = (s, Inr (RBool (isRecipient s e i)))"
| "exec V s e GetTotalMessages = (s, Inr (RCount (getTotalMessages s)))"
| "exec V s e (Messages i) = (s, Inr (RStruct (messages s i)))"
| "exec V s e MessageCount = (s, Inr (RCount (messageCount s)))"

text \<open>A history: calls run one after the other, each in its own transaction.\<close>

fun run :: "verifier \<Rightarrow> ledger \<Rightarrow> (env \<times> call) list \<Rightarrow> ledger \<times> (error + retval) list" where
  "run V s [] = (s, [])"
| "run V s ((e, c) # cs) =
     (let (s', r) = exec V s e c; (s'', rs) = run V s' cs in (s'', r # rs))"

text \<open>The ids that the successful \<open>sendMessage\<close> calls of a history returned, in order.\<close>

fun sent_ids :: "(error + retval) list \<Rightarrow> uint256 list" where
  "sent_ids [] = []"
| "sent_ids (Inr (RId i) # rs) = i # sent_ids rs"
| "sent_ids (_ # rs) = sent_ids rs"

subsection \<open>Invariants of the storage\<close>

text \<open>No slot at or above \<open>messageCount\<close> has been written.\<close>

definition fresh :: "ledger \<Rightarrow> bool" where
  "fresh s \<longleftrightarrow> (\<forall>i. messageCount s \<le> i \<longrightarrow> messages s i = zero_Message)"

text \<open>
  The received index of an address lists, in increasing order, the ids created so far
  whose recipient it is.
\<close>

definition indexed :: "ledger \<Rightarrow> bool" where
  "indexed s \<longleftrightarrow>
     (\<forall>a. receivedMessages s a =
        filter (\<lambda>i. recipient (messages s i) = a) (map of_nat [0..<unat (messageCount s)]))"

subsection \<open>Example inputs\<close>

text \<open>A runtime that accepts every proof, and the transaction of a given sender.\<close>

definition accept_all :: verifier where
  "accept_all e h p = Some h"

definition caller :: "address \<Rightarrow> env" where
  "caller a = \<lparr>msg_sender = a, block_timestamp = 1000, this = 99\<rparr>"

section \<open>The content cipher of the front end\<close>

text \<open>
  \<open>encryptFileWithAES\<close> and \<open>decryptFileContent\<close> of \<open>WalletModal.tsx\<close>. The
  front end calls the browser for the cipher (\<open>crypto.subtle\<close>), for the text
  encoder and for the random bytes; it implements none of them. The cipher and the
  encoder are parameters of the model, and the two draws of \<open>crypto.getRandomValues\<close>
  are arguments of \<open>encryptFileWithAES\<close>. A rejected promise is an \<open>Inl\<close>.
  A JavaScript string is the list of its code units, each below 256 here: hex text is
  ASCII.
\<close>

datatype js_error = TypeError | CryptoError

datatype usage = Encrypt | Decrypt

record 'k web =
  importKey :: "bytes \<Rightarrow> usage \<Rightarrow> 'k option"
  encrypt :: "bytes \<Rightarrow> 'k \<Rightarrow> bytes \<Rightarrow> bytes option"
  decrypt :: "bytes \<Rightarrow> 'k \<Rightarrow> bytes \<Rightarrow> bytes option"
  encode :: "string \<Rightarrow> bytes"

datatype content = Text string | Buffer bytes

subsection \<open>Bytes to hex\<close>

text \<open>
  \<open>Array.from(a).map(b => b.toString(16).padStart(2, '0')).join('')\<close>:
  \<open>toString(16)\<close> writes a number in lower-case hex digits with no leading zero.
\<close>

definition hexDigit :: "nat \<Rightarrow> char" where
  "hexDigit d = ''0123456789abcdef'' ! d"

function toString16 :: "nat \<Rightarrow> string" where
  "toString16 n =
     (if n < 16 then [hexDigit n] else toString16 (n div 16) @ [hexDigit (n mod 16)])"
  by pat_completeness auto
termination
  by (relation "measure id") auto

declare toString16.simps [simp del]

definition padStart :: "nat \<Rightarrow> char \<Rightarrow> string \<Rightarrow> string" where
  "padStart n c s = replicate (n - length s) c @ s"

definition toHex :: "bytes \<Rightarrow> string" where
  "toHex bs = concat (map (\<lambda>b. padStart 2 (CHR ''0'') (toString16 (unat b))) bs)"

subsection \<open>Hex to bytes\<close>

text \<open>
  \<open>new Uint8Array(s.match(/.{1,2}/g)!.map(byte => parseInt(byte, 16)))\<close>.
  The dot of a regular expression matches every character but a line terminator, so
  the global match cuts each run of other characters into pairs, the last of a run
  being one character when the run is odd. With no match at all \<open>match\<close> returns
  \<open>null\<close> and the call of \<open>map\<close> throws a \<open>TypeError\<close>. \<open>parseInt\<close> with radix 16
  skips leading white space, reads a sign, skips \<open>0x\<close>, and reads hex digits up to
  the first other character; with no digit it is \<open>NaN\<close> (here \<open>None\<close>). A
  \<open>Uint8Array\<close> stores a number modulo 256 and \<open>NaN\<close> as 0.
\<close>

definition isLineTerminator :: "char \<Rightarrow> bool" where
  "isLineTerminator c \<longleftrightarrow> c = CHR 0x0A \<or> c = CHR 0x0D"

fun matchPairs :: "string \<Rightarrow> string list" where
  "matchPairs [] = []"
| "matchPairs [x] = (if isLineTerminator x then [] else [[x]])"
| "matchPairs (x # y # zs) =
     (if isLineTerminator x then matchPairs (y # zs)
      else if isLineTerminator y then [x] # matchPairs zs
      else [x, y] # matchPairs zs)"

definition isWhiteSpace :: "char \<Rightarrow> bool" where
  "isWhiteSpace c \<longleftrightarrow>
     c \<in> {CHR 0x09, CHR 0x0A, CHR 0x0B, CHR 0x0C, CHR 0x0D, CHR 0x20, CHR 0xA0}"

definition hexValue :: "char \<Rightarrow> nat option" where
  "hexValue c =
     (let n = (of_char c :: nat)
      in if 48 \<le> n \<and> n \<le> 57 then Some (n - 48)
         else if 97 \<le> n \<and> n \<le> 102 then Some (n - 87)
         else if 65 \<le> n \<and> n \<le> 70 then Some (n - 55)
         else None)"

definition parseInt16 :: "string \<Rightarrow> int option" where
  "parseInt16 s =
     (let S = dropWhile isWhiteSpace s;
          sign = (if S \<noteq> [] \<and> hd S = CHR ''-'' then - 1 else 1 :: int);
          S1 = (if S \<noteq> [] \<and> (hd S = CHR ''+'' \<or> hd S = CHR ''-'') then tl S else S);
          S2 = (if take 2 S1 = ''0x'' \<or> take 2 S1 = ''0X'' then drop 2 S1 else S1);
          Z = takeWhile (\<lambda>c. hexValue c \<noteq> None) S2
      in if Z = [] then None
         else Some (sign * int (foldl (\<lambda>a c. 16 * a + the (hexValue c)) 0 Z)))"

definition toUint8 :: "int option \<Rightarrow> 8 word" where
  "toUint8 v = (case v of None \<Rightarrow> 0 | Some n \<Rightarrow> of_int n)"

definition fromHex :: "string \<Rightarrow> js_error + bytes" where
  "fromHex s =
     (case matchPairs s of
        [] \<Rightarrow> Inl TypeError
      | ps \<Rightarrow> Inr (map (\<lambda>byte. toUint8 (parseInt16 byte)) ps))"

subsection \<open>Encryption and decryption\<close>

definition encryptFileWithAES ::
  "'k web \<Rightarrow> bytes \<Rightarrow> bytes \<Rightarrow> content \<Rightarrow> js_error + (string \<times> bytes \<times> string)" where
  "encryptFileWithAES W aesKey iv content =
     (case importKey W aesKey Encrypt of
        None \<Rightarrow> Inl CryptoError
      | Some cryptoKey \<Rightarrow>
          let contentBytes = (case content of Text t \<Rightarrow> encode W t | Buffer b \<Rightarrow> b)
          in case encrypt W iv cryptoKey contentBytes of
               None \<Rightarrow> Inl CryptoError
             | Some encryptedArray \<Rightarrow>
                 let encryptedHex = toHex encryptedArray;
                     ivHex = toHex iv
                 in Inr (encryptedHex, aesKey, ivHex))"

definition decryptFileContent :: "'k web \<Rightarrow> string \<Rightarrow> bytes \<Rightarrow> bytes \<Rightarrow> js_error + bytes" where
  "decryptFileContent W encryptedHex key iv =
     (case importKey W key Decrypt of
        None \<Rightarrow> Inl CryptoError
      | Some cryptoKey \<Rightarrow>
          case fromHex encryptedHex of
            Inl err \<Rightarrow> Inl err
          | Inr encryptedBytes \<Rightarrow>
              (case decrypt W iv cryptoKey encryptedBytes of
                 None \<Rightarrow> Inl CryptoError
               | Some decryptedBuffer \<Rightarrow> Inr decryptedBuffer))"

text \<open>
  What the proofs use of AES-CBC in the browser, for a 256-bit key and a 128-bit
  initialisation vector: the raw key imports for both usages, encryption yields a
  ciphertext that is never empty (the padding adds from 1 to 16 bytes), and decryption
  under the same key and vector gives the plaintext back.
\<close>

definition aes_cbc :: "'k web \<Rightarrow> bool" where
  "aes_cbc W \<longleftrightarrow>
     (\<forall>k iv m. length k = 32 \<and> length iv = 16 \<longrightarrow>
        (\<exists>ke kd c. importKey W k Encrypt = Some ke \<and> importKey W k Decrypt = Some kd \<and>
           encrypt W iv ke m = Some c \<and> c \<noteq> [] \<and> decrypt W iv kd c = Some m))"

text \<open>
  An example platform: it pads as PKCS#7 does and leaves the bytes in clear.
\<close>

definition example_web :: "bytes web" where
  "example_web =
     \<lparr>importKey = (\<lambda>k u. if length k = 16 \<or> length k = 24 \<or> length k = 32 then Some k else None),
      encrypt = (\<lambda>iv k m. if length iv = 16
         then Some (m @ replicate (16 - length m mod 16) (of_nat (16 - length m mod 16)))
         else None),
      decrypt = (\<lambda>iv k c. if length iv = 16 \<and> c \<noteq> [] \<and> unat (last c) \<le> length c
         then Some (take (length c - unat (last c)) c)
         else None),
      encode = map of_char\<rparr>"

section \<open>Properties of the contract\<close>

subsection \<open>What a successful call does\<close>

lemma unat_succ: "(c::uint256) \<noteq> - 1 \<Longrightarrow> unat (c + 1) = Suc (unat c)"
  by (metis add.commute add_eq_0_iff2 unatSuc)

lemma less_succ: "(i::uint256) < c \<Longrightarrow> c \<noteq> - 1 \<Longrightarrow> i < c + 1"
  by (simp add: word_less_nat_alt unat_succ)

lemma succ_le: "(c::uint256) + 1 \<le> i \<Longrightarrow> c \<noteq> - 1 \<Longrightarrow> c < i"
  by (simp add: word_less_nat_alt word_le_nat_alt unat_succ)

lemma sendMessage_Inr:
  assumes "sendMessage V s e r c es sp ek kp = Inr (i, s')"
  shows "r \<noteq> 0 \<and> c \<noteq> [] \<and> messageCount s \<noteq> - 1 \<and> i = messageCount s \<and>
    (\<exists>sender key. V e es sp = Some sender \<and> V e ek kp = Some key \<and>
      s' = s\<lparr>messages := (messages s)(messageCount s :=
                 \<lparr>encryptedSender = sender, recipient = r, contentCID = c,
                  encryptedKey = key, timestamp = block_timestamp e, isDeleted = False\<rparr>),
              receivedMessages := (receivedMessages s)(r := receivedMessages s r @ [messageCount s]),
              sentMessages := (sentMessages s)(msg_sender e := sentMessages s (msg_sender e) @ [messageCount s]),
              messageCount := messageCount s + 1,
              acl := acl s @ [(sender, r), (key, r), (sender, this e), (key, this e)],
              events := events s @ [MessageSent (messageCount s) r (msg_sender e) c (block_timestamp e)]\<rparr>)"
  using assms
  by (auto simp: sendMessage_def Let_def FHE_allow_def FHE_allowThis_def emit_def
           split: if_splits option.splits)

lemma sendMessage_Inr_iff:
  "(\<exists>i s'. sendMessage V s e r c es sp ek kp = Inr (i, s')) \<longleftrightarrow>
     r \<noteq> 0 \<and> c \<noteq> [] \<and> V e es sp \<noteq> None \<and> V e ek kp \<noteq> None \<and> messageCount s \<noteq> - 1"
  by (auto simp: sendMessage_def Let_def FHE_allow_def FHE_allowThis_def emit_def
           split: option.splits)

lemma deleteMessage_Inr:
  assumes "deleteMessage s e i = Inr s'"
  shows "recipient (messages s i) = msg_sender e \<and> \<not> isDeleted (messages s i) \<and>
     s' = s\<lparr>messages := (messages s)(i := (messages s i)\<lparr>isDeleted := True\<rparr>),
            events := events s @ [MessageDeleted i (msg_sender e)]\<rparr>"
  using assms
  by (auto simp: deleteMessage_def Let_def emit_def split: if_splits)

lemma exec_effect:
  assumes "exec V s e c = (s', r)"
  shows "(s' = s \<and> (\<forall>i. r \<noteq> Inr (RId i))) \<or>
     (\<exists>a cid es sp ek kp i. c = SendMessage a cid es sp ek kp \<and> r = Inr (RId i) \<and>
        sendMessage V s e a cid es sp ek kp = Inr (i, s')) \<or>
     (\<exists>i. c = DeleteMessage i \<and> r = Inr RUnit \<and> deleteMessage s e i = Inr s')"
  using assms by (cases c) (auto split: sum.splits)

lemma exec_count:
  assumes "exec V s e c = (s', r)"
  shows "(\<exists>i. r = Inr (RId i) \<and> i = messageCount s \<and> messageCount s \<noteq> - 1 \<and>
            messageCount s' = messageCount s + 1) \<or>
         ((\<forall>i. r \<noteq> Inr (RId i)) \<and> messageCount s' = messageCount s)"
  using exec_effect [OF assms]
  by (auto dest!: sendMessage_Inr deleteMessage_Inr)

lemma sent_ids_other: "(\<forall>i. r \<noteq> Inr (RId i)) \<Longrightarrow> sent_ids (r # rs) = sent_ids rs"
  by (cases "(r # rs)" rule: sent_ids.cases) auto

lemma run_Cons:
  "run V s ((e, c) # cs) = (s', rs) \<longleftrightarrow>
     (\<exists>s1 r rs1. exec V s e c = (s1, r) \<and> run V s1 cs = (s', rs1) \<and> rs = r # rs1)"
  by (auto split: prod.splits)

lemma run_ids:
  "run V s cs = (s', rs) \<Longrightarrow>
     map unat (sent_ids rs) =
       [unat (messageCount s)..<unat (messageCount s) + length (sent_ids rs)] \<and>
     unat (messageCount s') = unat (messageCount s) + length (sent_ids rs)"
proof (induction cs arbitrary: s s' rs)
  case Nil
  then show ?case by simp
next
  case (Cons x cs)
  obtain e c where x: "x = (e, c)" by (cases x)
  from Cons.prems [unfolded x run_Cons] obtain s1 r rs1 where
    ex: "exec V s e c = (s1, r)" and rn: "run V s1 cs = (s', rs1)" and rs: "rs = r # rs1"
    by blast
  note IH = Cons.IH [OF rn]
  from exec_count [OF ex] show ?case
  proof (elim disjE exE conjE)
    fix i
    assume r: "r = Inr (RId i)" and i: "i = messageCount s" and nm: "messageCount s \<noteq> - 1"
      and c1: "messageCount s1 = messageCount s + 1"
    have u: "unat (messageCount s1) = Suc (unat (messageCount s))"
      by (simp add: c1 unat_succ nm)
    have up: "[a..<a + Suc n] = a # [Suc a..<Suc a + n]" for a n :: nat
      by (subst upt_rec) simp
    have "sent_ids rs = i # sent_ids rs1" by (simp add: rs r)
    then show ?thesis using IH unfolding u by (simp only: i list.map length_Cons up) simp
  next
    assume "\<forall>i. r \<noteq> Inr (RId i)" and c1: "messageCount s1 = messageCount s"
    then have "sent_ids rs = sent_ids rs1" by (simp add: rs sent_ids_other)
    then show ?thesis using IH by (simp add: c1)
  qed
qed

subsection \<open>A created message keeps its fields\<close>

lemma exec_keeps:
  assumes "exec V s e c = (s', r)" and "i < messageCount s"
  shows "i < messageCount s' \<and>
         messages s' i = (messages s i)\<lparr>isDeleted := isDeleted (messages s' i)\<rparr> \<and>
         (isDeleted (messages s i) \<longrightarrow> isDeleted (messages s' i))"
  using exec_effect [OF assms(1)] assms(2)
  by (auto dest!: sendMessage_Inr deleteMessage_Inr simp: less_succ)

lemma run_keeps:
  "run V s cs = (s', rs) \<Longrightarrow> i < messageCount s \<Longrightarrow>
     i < messageCount s' \<and>
     messages s' i = (messages s i)\<lparr>isDeleted := isDeleted (messages s' i)\<rparr> \<and>
     (isDeleted (messages s i) \<longrightarrow> isDeleted (messages s' i))"
proof (induction cs arbitrary: s rs)
  case Nil
  then show ?case by simp
next
  case (Cons x cs)
  obtain e c where x: "x = (e, c)" by (cases x)
  from Cons.prems(1) [unfolded x run_Cons] obtain s1 r rs1 where
    ex: "exec V s e c = (s1, r)" and rn: "run V s1 cs = (s', rs1)"
    by blast
  from exec_keeps [OF ex Cons.prems(2)] have
    a: "i < messageCount s1"
    and b: "messages s1 i = (messages s i)\<lparr>isDeleted := isDeleted (messages s1 i)\<rparr>"
    and c: "isDeleted (messages s i) \<longrightarrow> isDeleted (messages s1 i)"
    by blast+
  from Cons.IH [OF rn a] have
    a': "i < messageCount s'"
    and b': "messages s' i = (messages s1 i)\<lparr>isDeleted := isDeleted (messages s' i)\<rparr>"
    and c': "isDeleted (messages s1 i) \<longrightarrow> isDeleted (messages s' i)"
    by blast+
  have "messages s' i = (messages s i)\<lparr>isDeleted := isDeleted (messages s' i)\<rparr>"
    by (subst b', subst b) simp
  with a' c c' show ?case by blast
qed

text \<open>
  A created message that is not deleted stays so, and keeps its recipient, as long as
  its recipient does not call \<open>deleteMessage\<close> on it: the call of any other address
  fails the first \<open>require\<close>.
\<close>

lemma exec_live:
  assumes "exec V s e c = (s', r)" and "i < messageCount s"
    and "\<not> isDeleted (messages s i)"
    and "\<not> (c = DeleteMessage i \<and> msg_sender e = recipient (messages s i))"
  shows "\<not> isDeleted (messages s' i)"
  using exec_effect [OF assms(1)]
proof (elim disjE exE conjE)
  assume "s' = s" with assms(3) show ?thesis by simp
next
  fix a cid es sp ek kp j
  assume "sendMessage V s e a cid es sp ek kp = Inr (j, s')"
  from sendMessage_Inr [OF this] obtain m where
    "messages s' = (messages s)(messageCount s := m)"
    by auto
  with assms(2,3) show ?thesis by auto
next
  fix j
  assume c: "c = DeleteMessage j" and "deleteMessage s e j = Inr s'"
  from deleteMessage_Inr [OF this(2)] have
    rj: "recipient (messages s j) = msg_sender e"
    and m': "messages s' = (messages s)(j := (messages s j)\<lparr>isDeleted := True\<rparr>)"
    by auto
  from assms(4) c rj have "j \<noteq> i" by auto
  with assms(3) show ?thesis by (simp add: m')
qed

lemma run_live:
  "run V s cs = (s', rs) \<Longrightarrow> i < messageCount s \<Longrightarrow> \<not> isDeleted (messages s i) \<Longrightarrow>
   list_all (\<lambda>(e, c). \<not> (c = DeleteMessage i \<and> msg_sender e = recipient (messages s i))) cs \<Longrightarrow>
     i < messageCount s' \<and> \<not> isDeleted (messages s' i) \<and>
     recipient (messages s' i) = recipient (messages s i)"
proof (induction cs arbitrary: s rs)
  case Nil
  then show ?case by simp
next
  case (Cons x cs)
  obtain e c where x: "x = (e, c)" by (cases x)
  from Cons.prems(1) [unfolded x run_Cons] obtain s1 r rs1 where
    ex: "exec V s e c = (s1, r)" and rn: "run V s1 cs = (s', rs1)"
    by blast
  from Cons.prems(4) x have
    here: "\<not> (c = DeleteMessage i \<and> msg_sender e = recipient (messages s i))"
    and rest: "list_all (\<lambda>(e, c). \<not> (c = DeleteMessage i \<and>
                 msg_sender e = recipient (messages s i))) cs"
    by simp_all
  from exec_keeps [OF ex Cons.prems(2)] have
    lt1: "i < messageCount s1"
    and m1: "messages s1 i = (messages s i)\<lparr>isDeleted := isDeleted (messages s1 i)\<rparr>"
    by blast+
  have r1: "recipient (messages s1 i) = recipient (messages s i)"
    by (subst m1) simp
  have live1: "\<not> isDeleted (messages s1 i)"
    by (rule exec_live [OF ex Cons.prems(2,3) here])
  from rest have rest1: "list_all (\<lambda>(e, c). \<not> (c = DeleteMessage i \<and>
                 msg_sender e = recipient (messages s1 i))) cs"
    by (simp only: r1)
  from Cons.IH [OF rn lt1 live1 rest1] r1 show ?case by simp
qed

lemma exec_fresh:
  assumes "exec V s e c = (s', r)" and "msg_sender e \<noteq> 0" and "fresh s"
  shows "fresh s'"
  using exec_effect [OF assms(1)]
proof (elim disjE exE conjE)
  assume "s' = s" with assms(3) show ?thesis by simp
next
  fix a cid es sp ek kp i
  assume "sendMessage V s e a cid es sp ek kp = Inr (i, s')"
  from sendMessage_Inr [OF this] obtain m where
    nm: "messageCount s \<noteq> - 1" and c': "messageCount s' = messageCount s + 1"
    and m': "messages s' = (messages s)(messageCount s := m)"
    by auto
  show ?thesis
    unfolding fresh_def
  proof (intro allI impI)
    fix j assume "messageCount s' \<le> j"
    then have "messageCount s < j" using nm by (simp add: c' succ_le)
    then have "j \<noteq> messageCount s" and "messageCount s \<le> j" by auto
    then show "messages s' j = zero_Message"
      using assms(3) by (simp add: m' fresh_def)
  qed
next
  fix i
  assume "deleteMessage s e i = Inr s'"
  from deleteMessage_Inr [OF this] assms(2,3) show ?thesis
    unfolding fresh_def
    by (auto simp: zero_Message_def)
qed

lemma run_fresh:
  "run V s cs = (s', rs) \<Longrightarrow> list_all (\<lambda>(e, c). msg_sender e \<noteq> 0) cs \<Longrightarrow> fresh s
     \<Longrightarrow> fresh s'"
proof (induction cs arbitrary: s rs)
  case Nil
  then show ?case by simp
next
  case (Cons x cs)
  obtain e c where x: "x = (e, c)" by (cases x)
  from Cons.prems(1) [unfolded x run_Cons] obtain s1 r rs1 where
    ex: "exec V s e c = (s1, r)" and rn: "run V s1 cs = (s', rs1)"
    by blast
  from Cons.prems(2) x have nz: "msg_sender e \<noteq> 0"
    and rest: "list_all (\<lambda>(e, c). msg_sender e \<noteq> 0) cs"
    by simp_all
  from Cons.IH [OF rn rest exec_fresh [OF ex nz Cons.prems(3)]] show ?case .
qed

lemma fresh_init: "fresh init"
  by (simp add: fresh_def init_def)

lemma of_nat_less: "k < unat (c::uint256) \<Longrightarrow> (of_nat k :: uint256) < c"
proof -
  assume k: "k < unat c"
  have "unat c < 2 ^ LENGTH(256)" by (rule unsigned_less)
  with k have "k < 2 ^ LENGTH(256)" by (rule less_trans)
  then have "unat (of_nat k :: uint256) = k" by (simp add: unat_of_nat)
  with k show ?thesis by (simp add: word_less_nat_alt)
qed

lemma exec_indexed:
  assumes "exec V s e c = (s', r)" and "indexed s"
  shows "indexed s'"
  using exec_effect [OF assms(1)]
proof (elim disjE exE conjE)
  assume "s' = s" with assms(2) show ?thesis by simp
next
  fix a cid es sp ek kp i
  assume "sendMessage V s e a cid es sp ek kp = Inr (i, s')"
  from sendMessage_Inr [OF this] obtain m where
    nm: "messageCount s \<noteq> - 1" and c': "messageCount s' = messageCount s + 1"
    and m': "messages s' = (messages s)(messageCount s := m)" and rm: "recipient m = a"
    and r': "receivedMessages s' =
       (receivedMessages s)(a := receivedMessages s a @ [messageCount s])"
    by auto
  have old: "filter (\<lambda>i. recipient (messages s' i) = b) (map of_nat [0..<unat (messageCount s)])
      = filter (\<lambda>i. recipient (messages s i) = b) (map of_nat [0..<unat (messageCount s)])" for b
  proof (rule filter_cong [OF refl])
    fix i :: uint256 assume "i \<in> set (map of_nat [0..<unat (messageCount s)])"
    then have "i < messageCount s" by (auto dest: of_nat_less)
    then show "(recipient (messages s' i) = b) = (recipient (messages s i) = b)"
      by (auto simp: m')
  qed
  show ?thesis
    unfolding indexed_def
  proof
    fix b
    have "filter (\<lambda>i. recipient (messages s' i) = b) (map of_nat [0..<unat (messageCount s')])
       = filter (\<lambda>i. recipient (messages s i) = b) (map of_nat [0..<unat (messageCount s)])
          @ (if a = b then [messageCount s] else [])"
      by (simp add: c' unat_succ nm old) (simp add: m' rm)
    then show "receivedMessages s' b =
       filter (\<lambda>i. recipient (messages s' i) = b) (map of_nat [0..<unat (messageCount s')])"
      using assms(2) by (auto simp: r' indexed_def)
  qed
next
  fix i
  assume "deleteMessage s e i = Inr s'"
  from deleteMessage_Inr [OF this] assms(2) show ?thesis
    unfolding indexed_def
    by (auto intro!: filter_cong)
qed

lemma run_indexed:
  "run V s cs = (s', rs) \<Longrightarrow> indexed s \<Longrightarrow> indexed s'"
proof (induction cs arbitrary: s rs)
  case Nil
  then show ?case by simp
next
  case (Cons x cs)
  obtain e c where x: "x = (e, c)" by (cases x)
  from Cons.prems(1) [unfolded x run_Cons] obtain s1 r rs1 where
    ex: "exec V s e c = (s1, r)" and rn: "run V s1 cs = (s', rs1)"
    by blast
  from Cons.IH [OF rn exec_indexed [OF ex Cons.prems(2)]] show ?case .
qed

lemma indexed_init: "indexed init"
  by (simp add: indexed_def init_def)

lemma exec_received_grows:
  assumes "exec V s e c = (s', r)"
  shows "\<exists>ys. receivedMessages s' a = receivedMessages s a @ ys"
  using exec_effect [OF assms]
  by (auto dest!: sendMessage_Inr deleteMessage_Inr)

lemma run_received_grows:
  "run V s cs = (s', rs) \<Longrightarrow> \<exists>ys. receivedMessages s' a = receivedMessages s a @ ys"
proof (induction cs arbitrary: s rs)
  case Nil
  then show ?case by simp
next
  case (Cons x cs)
  obtain e c where x: "x = (e, c)" by (cases x)
  from Cons.prems(1) [unfolded x run_Cons] obtain s1 r rs1 where
    ex: "exec V s e c = (s1, r)" and rn: "run V s1 cs = (s', rs1)"
    by blast
  from exec_received_grows [OF ex] Cons.IH [OF rn] show ?case
    by (metis append.assoc)
qed

lemmas contract_defs =
  init_def zero_Message_def sendMessage_def getMessage_def getMessageMetadata_def
  getReceivedMessagesOf_def deleteMessage_def getTotalMessages_def
  FHE_allow_def FHE_allowThis_def emit_def accept_all_def caller_def Let_def

subsection \<open>Reading a message\<close>

text \<open>
  C1. \<open>getMessage\<close> succeeds exactly when the message is not deleted and the caller
  is its recipient. On a deleted message it reverts with "Message deleted" (a
  \<open>StateError\<close>) whoever calls; on a message that is not deleted it reverts with
  "Not authorized" (an \<open>AuthorizationError\<close>) for every caller but the recipient.
\<close>

theorem getMessage_access:
  "(isDeleted (messages s i) \<longrightarrow>
      getMessage s e i = Inl (Revert ''Message deleted'') \<and>
      kind_of (Revert ''Message deleted'') = StateError) \<and>
   (\<not> isDeleted (messages s i) \<and> msg_sender e \<noteq> recipient (messages s i) \<longrightarrow>
      getMessage s e i = Inl (Revert ''Not authorized'') \<and>
      kind_of (Revert ''Not authorized'') = AuthorizationError) \<and>
   (\<not> isDeleted (messages s i) \<and> msg_sender e = recipient (messages s i) \<longrightarrow>
      getMessage s e i =
        Inr (encryptedSender (messages s i), contentCID (messages s i),
             encryptedKey (messages s i), timestamp (messages s i))) \<and>
   ((\<exists>v. getMessage s e i = Inr v) \<longleftrightarrow>
      \<not> isDeleted (messages s i) \<and> msg_sender e = recipient (messages s i))"
  by (auto simp: getMessage_def Let_def)

theorem getMessage_access_witness:
  "getMessage (fst (run accept_all init [(caller 7, SendMessage 1 ''QmX'' 5 [] 6 [])]))
      (caller 1) 0 = Inr (5, ''QmX'', 6, 1000) \<and>
   getMessage (fst (run accept_all init [(caller 7, SendMessage 1 ''QmX'' 5 [] 6 [])]))
      (caller 2) 0 = Inl (Revert ''Not authorized'') \<and>
   getMessage (fst (run accept_all init
      [(caller 7, SendMessage 1 ''QmX'' 5 [] 6 []), (caller 1, DeleteMessage 0)]))
      (caller 2) 0 = Inl (Revert ''Message deleted'')"
proof -
  let ?s1 = "fst (run accept_all init [(caller 7, SendMessage 1 ''QmX'' 5 [] 6 [])])"
  let ?s2 = "fst (run accept_all init
      [(caller 7, SendMessage 1 ''QmX'' 5 [] 6 []), (caller 1, DeleteMessage 0)])"
  have m1: "messages ?s1 0 = \<lparr>encryptedSender = 5, recipient = 1, contentCID = ''QmX'',
      encryptedKey = 6, timestamp = 1000, isDeleted = False\<rparr>"
    by (simp add: contract_defs)
  have m2: "isDeleted (messages ?s2 0)"
    by (simp add: contract_defs)
  have a: "\<not> isDeleted (messages ?s1 0) \<and> msg_sender (caller 1) = recipient (messages ?s1 0)"
    by (simp only: m1) (simp add: caller_def)
  have b: "\<not> isDeleted (messages ?s1 0) \<and> msg_sender (caller 2) \<noteq> recipient (messages ?s1 0)"
    by (simp only: m1) (simp add: caller_def)
  from getMessage_access [of ?s1 0 "caller 1"] a
  have "getMessage ?s1 (caller 1) 0 = Inr (5, ''QmX'', 6, 1000)"
    by (simp only: m1) simp
  moreover from getMessage_access [of ?s1 0 "caller 2"] b
  have "getMessage ?s1 (caller 2) 0 = Inl (Revert ''Not authorized'')"
    by blast
  moreover from getMessage_access [of ?s2 0 "caller 2"] m2
  have "getMessage ?s2 (caller 2) 0 = Inl (Revert ''Message deleted'')"
    by blast
  ultimately show ?thesis by blast
qed

subsection \<open>Deleting a message\<close>

text \<open>
  C2, as the code has it. \<open>deleteMessage\<close> checks the caller before the flag.
  Take a message created by a successful \<open>sendMessage\<close> and any history after it in
  which its recipient has not yet called \<open>deleteMessage\<close> on its id, whatever the
  other addresses tried. The recipient's first call then succeeds and sets
  \<open>isDeleted\<close>. After it, whatever else happens on the ledger, a call on that id
  reverts and leaves the ledger as it was: with "Already deleted" (a \<open>StateError\<close>)
  when the caller is the recipient, with "Not authorized" (an
  \<open>AuthorizationError\<close>) for any other caller.
\<close>

theorem deleteMessage_recipient_then_locked:
  assumes "sendMessage V s0 e0 r c es sp ek kp = Inr (i, s)"
    and "run V s cs = (s1, rs1)"
    and "list_all (\<lambda>(e', c'). \<not> (c' = DeleteMessage i \<and> msg_sender e' = r)) cs"
    and "msg_sender e = r"
  shows "\<exists>s2. deleteMessage s1 e i = Inr s2 \<and>
     exec V s1 e (DeleteMessage i) = (s2, Inr RUnit) \<and>
     isDeleted (messages s2 i) \<and>
     (\<forall>cs' s3 rs3 e'. run V s2 cs' = (s3, rs3) \<longrightarrow>
        exec V s3 e' (DeleteMessage i) =
          (s3, Inl (Revert (if msg_sender e' = r
                            then ''Already deleted'' else ''Not authorized'')))) \<and>
     kind_of (Revert ''Already deleted'') = StateError \<and>
     kind_of (Revert ''Not authorized'') = AuthorizationError"
proof -
  from sendMessage_Inr [OF assms(1)] obtain m where
    nm: "messageCount s0 \<noteq> - 1" and i: "i = messageCount s0"
    and cnt: "messageCount s = messageCount s0 + 1"
    and m: "messages s i = m" and rm: "recipient m = r" and lm: "\<not> isDeleted m"
    by auto
  have "messageCount s0 < messageCount s0 + 1"
    using nm by (simp add: word_less_nat_alt unat_succ)
  then have lt: "i < messageCount s" by (simp add: i cnt)
  have live: "\<not> isDeleted (messages s i)" and rcp: "recipient (messages s i) = r"
    by (simp_all add: m rm lm)
  from assms(3) have quiet: "list_all (\<lambda>(e', c'). \<not> (c' = DeleteMessage i \<and>
      msg_sender e' = recipient (messages s i))) cs"
    by (simp only: rcp)
  from run_live [OF assms(2) lt live quiet] rcp have
    lt1: "i < messageCount s1" and live1: "\<not> isDeleted (messages s1 i)"
    and rcp1: "recipient (messages s1 i) = r"
    by simp_all
  let ?s2 = "emit (s1\<lparr>messages := (messages s1)(i := (messages s1 i)\<lparr>isDeleted := True\<rparr>)\<rparr>)
               (MessageDeleted i (msg_sender e))"
  have d: "deleteMessage s1 e i = Inr ?s2"
    using live1 rcp1 assms(4) by (simp add: deleteMessage_def Let_def)
  then have x: "exec V s1 e (DeleteMessage i) = (?s2, Inr RUnit)"
    by simp
  have del: "isDeleted (messages ?s2 i)" and rcp2: "recipient (messages ?s2 i) = r"
    and lt2: "i < messageCount ?s2"
    using lt1 rcp1 by (simp_all add: emit_def)
  have later: "exec V s3 e' (DeleteMessage i) =
          (s3, Inl (Revert (if msg_sender e' = r
                            then ''Already deleted'' else ''Not authorized'')))"
    if r3: "run V ?s2 cs' = (s3, rs3)" for cs' s3 rs3 e'
  proof -
    from run_keeps [OF r3 lt2] del have d3: "isDeleted (messages s3 i)"
      and m3: "messages s3 i = (messages ?s2 i)\<lparr>isDeleted := isDeleted (messages s3 i)\<rparr>"
      by blast+
    have "recipient (messages s3 i) = recipient (messages ?s2 i)"
      by (subst m3) simp
    with rcp2 have "recipient (messages s3 i) = r" by simp
    with d3 show ?thesis by (simp add: deleteMessage_def Let_def)
  qed
  from d x del later show ?thesis by (intro exI [of _ ?s2]) simp
qed

theorem deleteMessage_recipient_then_locked_witness:
  "(let s = fst (run accept_all init [(caller 7, SendMessage 1 ''QmX'' 5 [] 6 [])]);
        s1 = fst (run accept_all s
               [(caller 2, DeleteMessage 0), (caller 8, SendMessage 2 ''QmY'' 8 [] 9 []),
                (caller 1, DeleteMessage 1)])
    in sendMessage accept_all init (caller 7) 1 ''QmX'' 5 [] 6 [] = Inr (0, s) \<and>
       (\<exists>s2. deleteMessage s1 (caller 1) 0 = Inr s2 \<and>
          exec accept_all s1 (caller 1) (DeleteMessage 0) = (s2, Inr RUnit) \<and>
          isDeleted (messages s2 0) \<and>
          exec accept_all (fst (run accept_all s2 [(caller 7, SendMessage 2 ''QmZ'' 8 [] 9 [])]))
             (caller 1) (DeleteMessage 0) =
            (fst (run accept_all s2 [(caller 7, SendMessage 2 ''QmZ'' 8 [] 9 [])]),
             Inl (Revert ''Already deleted'')) \<and>
          exec accept_all (fst (run accept_all s2 [(caller 7, SendMessage 2 ''QmZ'' 8 [] 9 [])]))
             (caller 2) (DeleteMessage 0) =
            (fst (run accept_all s2 [(caller 7, SendMessage 2 ''QmZ'' 8 [] 9 [])]),
             Inl (Revert ''Not authorized''))))"
proof -
  let ?s = "fst (run accept_all init [(caller 7, SendMessage 1 ''QmX'' 5 [] 6 [])])"
  let ?cs = "[(caller 2, DeleteMessage 0), (caller 8, SendMessage 2 ''QmY'' 8 [] 9 []),
                (caller 1, DeleteMessage 1)]"
  let ?s1 = "fst (run accept_all ?s ?cs)"
  have h0: "sendMessage accept_all init (caller 7) 1 ''QmX'' 5 [] 6 [] = Inr (0, ?s)"
    by (simp add: contract_defs)
  have h1: "run accept_all ?s ?cs = (?s1, snd (run accept_all ?s ?cs))"
    by (rule prod.collapse [symmetric])
  have h2: "list_all (\<lambda>(e', c'). \<not> (c' = DeleteMessage 0 \<and> msg_sender e' = 1)) ?cs"
    by (simp add: caller_def)
  have h3: "msg_sender (caller 1) = 1"
    by (simp add: caller_def)
  from deleteMessage_recipient_then_locked [OF h0 h1 h2 h3] obtain s2 where
    d: "deleteMessage ?s1 (caller 1) 0 = Inr s2"
    and x: "exec accept_all ?s1 (caller 1) (DeleteMessage 0) = (s2, Inr RUnit)"
    and del: "isDeleted (messages s2 0)"
    and later: "\<And>cs' s3 rs3 e'. run accept_all s2 cs' = (s3, rs3) \<Longrightarrow>
        exec accept_all s3 e' (DeleteMessage 0) =
          (s3, Inl (Revert (if msg_sender e' = 1
                            then ''Already deleted'' else ''Not authorized'')))"
    by blast
  let ?cs' = "[(caller 7, SendMessage 2 ''QmZ'' 8 [] 9 [])]"
  have run: "run accept_all s2 ?cs' = (fst (run accept_all s2 ?cs'), snd (run accept_all s2 ?cs'))"
    by (rule prod.collapse [symmetric])
  have a: "exec accept_all (fst (run accept_all s2 ?cs')) (caller 1) (DeleteMessage 0) =
      (fst (run accept_all s2 ?cs'), Inl (Revert ''Already deleted''))"
    using later [OF run, of "caller 1"] by (simp only: h3 if_True simp_thms)
  have ne: "msg_sender (caller 2) \<noteq> 1" by (simp add: caller_def)
  have b: "exec accept_all (fst (run accept_all s2 ?cs')) (caller 2) (DeleteMessage 0) =
      (fst (run accept_all s2 ?cs'), Inl (Revert ''Not authorized''))"
    using later [OF run, of "caller 2"] by (simp only: ne if_False simp_thms)
  from h0 d x del a b show ?thesis unfolding Let_def by blast
qed

text \<open>
  C2 as stated fails: after the recipient has deleted message 0, the call of another
  address reverts with "Not authorized", which is not a \<open>StateError\<close>.
\<close>

theorem deleteMessage_any_caller_counterexample:
  "snd (run accept_all init
      [(caller 7, SendMessage 1 ''QmX'' 5 [] 6 []), (caller 1, DeleteMessage 0),
       (caller 2, DeleteMessage 0)]) =
     [Inr (RId 0), Inr RUnit, Inl (Revert ''Not authorized'')] \<and>
   kind_of (Revert ''Not authorized'') \<noteq> StateError"
  by (simp add: contract_defs)

subsection \<open>Sending a message\<close>

text \<open>
  C3. \<open>sendMessage\<close> with the zero address as recipient, or with an empty content
  locator, reverts with a \<open>ValidationError\<close> ("Invalid recipient", checked first, or
  "Empty content CID"); the transaction leaves the ledger unchanged, so no message is
  created.
\<close>

theorem sendMessage_validation:
  assumes "r = 0 \<or> c = []"
  shows "\<exists>err. sendMessage V s e r c es sp ek kp = Inl err \<and>
           err = (if r = 0 then Revert ''Invalid recipient'' else Revert ''Empty content CID'') \<and>
           kind_of err = ValidationError \<and>
           exec V s e (SendMessage r c es sp ek kp) = (s, Inl err)"
  using assms by (auto simp: sendMessage_def)

theorem sendMessage_validation_witness:
  "exec accept_all init (caller 7) (SendMessage 0 ''QmX'' 5 [] 6 []) =
     (init, Inl (Revert ''Invalid recipient'')) \<and>
   exec accept_all init (caller 7) (SendMessage 1 [] 5 [] 6 []) =
     (init, Inl (Revert ''Empty content CID''))"
proof -
  have a: "(0::address) = 0 \<or> ''QmX'' = []" by simp
  have b: "(1::address) = 0 \<or> ([]::string) = []" by simp
  from sendMessage_validation [OF a, of accept_all init "caller 7" 5 "[]" 6 "[]"]
       sendMessage_validation [OF b, of accept_all init "caller 7" 5 "[]" 6 "[]"]
  show ?thesis by auto
qed

text \<open>
  C4. After any history from deployment, \<open>getTotalMessages\<close> is the number of
  successful \<open>sendMessage\<close> calls, and the ids they returned are 0, 1, ..., N - 1 in
  the order of the calls: sequential from 0, pairwise distinct, never issued twice.
\<close>

theorem count_and_ids:
  assumes "run V init cs = (s, rs)"
  shows "unat (getTotalMessages s) = length (sent_ids rs) \<and>
         unat (messageCount s) = length (sent_ids rs) \<and>
         map unat (sent_ids rs) = [0..<length (sent_ids rs)] \<and>
         distinct (sent_ids rs)"
proof -
  from run_ids [OF assms] have
    n: "unat (messageCount s) = length (sent_ids rs)"
    and ids: "map unat (sent_ids rs) = [0..<length (sent_ids rs)]"
    by (simp_all add: init_def)
  have "distinct (map unat (sent_ids rs))" by (simp add: ids)
  then have "distinct (sent_ids rs)" by (simp add: distinct_map)
  with n ids show ?thesis by (simp add: getTotalMessages_def)
qed

theorem count_and_ids_witness:
  "snd (run accept_all init
      [(caller 7, SendMessage 1 ''QmX'' 5 [] 6 []), (caller 1, DeleteMessage 0),
       (caller 7, SendMessage 0 ''QmZ'' 5 [] 6 []),
       (caller 8, SendMessage 2 ''QmY'' 8 [] 9 [])]) =
     [Inr (RId 0), Inr RUnit, Inl (Revert ''Invalid recipient''), Inr (RId 1)] \<and>
   unat (getTotalMessages (fst (run accept_all init
      [(caller 7, SendMessage 1 ''QmX'' 5 [] 6 []), (caller 1, DeleteMessage 0),
       (caller 7, SendMessage 0 ''QmZ'' 5 [] 6 []),
       (caller 8, SendMessage 2 ''QmY'' 8 [] 9 [])]))) = 2"
proof -
  let ?cs = "[(caller 7, SendMessage 1 ''QmX'' 5 [] 6 []), (caller 1, DeleteMessage 0),
       (caller 7, SendMessage 0 ''QmZ'' 5 [] 6 []),
       (caller 8, SendMessage 2 ''QmY'' 8 [] 9 [])]"
  have rs: "snd (run accept_all init ?cs) =
     [Inr (RId 0), Inr RUnit, Inl (Revert ''Invalid recipient''), Inr (RId 1)]"
    by (simp add: contract_defs)
  have run: "run accept_all init ?cs = (fst (run accept_all init ?cs), snd (run accept_all init ?cs))"
    by simp
  from count_and_ids [OF run]
  have "unat (getTotalMessages (fst (run accept_all init ?cs))) =
     length (sent_ids (snd (run accept_all init ?cs)))"
    by blast
  then have "unat (getTotalMessages (fst (run accept_all init ?cs))) = 2"
    by (simp only: rs) simp
  with rs show ?thesis by blast
qed

text \<open>
  C5. When \<open>sendMessage\<close> succeeds, \<open>getMessageMetadata\<close> on the id it returned
  gives the recipient and the locator of the call, the timestamp of its block, and
  \<open>isDeleted = false\<close>. It succeeds for every non-zero recipient and non-empty locator
  whose two proofs the runtime accepts, as long as the counter has not reached its
  maximum.
\<close>

theorem send_then_metadata:
  "(sendMessage V s e r c es sp ek kp = Inr (i, s') \<longrightarrow>
      getMessageMetadata s' i = (r, c, block_timestamp e, False)) \<and>
   (r \<noteq> 0 \<and> c \<noteq> [] \<and> V e es sp \<noteq> None \<and> V e ek kp \<noteq> None \<and> messageCount s \<noteq> - 1 \<longrightarrow>
      (\<exists>i s'. sendMessage V s e r c es sp ek kp = Inr (i, s')))"
proof (intro conjI impI)
  assume "sendMessage V s e r c es sp ek kp = Inr (i, s')"
  from sendMessage_Inr [OF this]
  show "getMessageMetadata s' i = (r, c, block_timestamp e, False)"
    by (auto simp: getMessageMetadata_def Let_def)
next
  assume "r \<noteq> 0 \<and> c \<noteq> [] \<and> V e es sp \<noteq> None \<and> V e ek kp \<noteq> None \<and> messageCount s \<noteq> - 1"
  then show "\<exists>i s'. sendMessage V s e r c es sp ek kp = Inr (i, s')"
    by (simp add: sendMessage_Inr_iff)
qed

theorem send_then_metadata_witness:
  "\<exists>s'. sendMessage accept_all init (caller 7) 1 ''QmX'' 5 [] 6 [] = Inr (0, s') \<and>
     getMessageMetadata s' 0 = (1, ''QmX'', 1000, False)"
proof -
  have "(1::address) \<noteq> 0 \<and> ''QmX'' \<noteq> [] \<and> accept_all (caller 7) 5 [] \<noteq> None \<and>
     accept_all (caller 7) 6 [] \<noteq> None \<and> messageCount init \<noteq> - 1"
    by (simp add: accept_all_def init_def)
  with send_then_metadata [of accept_all init "caller 7" 1 "''QmX''" 5 "[]" 6 "[]"]
  obtain i s' where s: "sendMessage accept_all init (caller 7) 1 ''QmX'' 5 [] 6 [] = Inr (i, s')"
    by blast
  from sendMessage_Inr [OF s] have i: "i = 0" by (simp add: init_def)
  from send_then_metadata [of accept_all init "caller 7" 1 "''QmX''" 5 "[]" 6 "[]" i s'] s
  have "getMessageMetadata s' i = (1, ''QmX'', block_timestamp (caller 7), False)"
    by blast
  with s i show ?thesis by (simp add: caller_def)
qed

subsection \<open>The life of a message\<close>

text \<open>
  C7. Take a message created by a successful \<open>sendMessage\<close>, and any two histories
  run one after the other from there. The sender handle, the recipient, the locator,
  the key handle and the timestamp are, at the end, what the creating call stored.
  The message starts not deleted, and once \<open>isDeleted\<close> is true it stays true.
\<close>

theorem message_fields_fixed:
  assumes "sendMessage V s0 e r c es sp ek kp = Inr (i, s)"
    and "run V s cs = (s1, rs1)" and "run V s1 cs' = (s2, rs2)"
  shows "Some (encryptedSender (messages s2 i)) = V e es sp \<and>
         recipient (messages s2 i) = r \<and>
         contentCID (messages s2 i) = c \<and>
         Some (encryptedKey (messages s2 i)) = V e ek kp \<and>
         timestamp (messages s2 i) = block_timestamp e \<and>
         \<not> isDeleted (messages s i) \<and>
         (isDeleted (messages s1 i) \<longrightarrow> isDeleted (messages s2 i))"
proof -
  from sendMessage_Inr [OF assms(1)] obtain sender key where
    nm: "messageCount s0 \<noteq> - 1" and i: "i = messageCount s0"
    and v: "V e es sp = Some sender" "V e ek kp = Some key"
    and c: "messageCount s = messageCount s0 + 1"
    and m: "messages s i = \<lparr>encryptedSender = sender, recipient = r, contentCID = c,
              encryptedKey = key, timestamp = block_timestamp e, isDeleted = False\<rparr>"
    by auto
  have "messageCount s0 < messageCount s0 + 1"
    using nm by (simp add: word_less_nat_alt unat_succ)
  then have lt: "i < messageCount s" by (simp add: i c)
  from run_keeps [OF assms(2) lt] have
    lt1: "i < messageCount s1"
    and m1: "messages s1 i = (messages s i)\<lparr>isDeleted := isDeleted (messages s1 i)\<rparr>"
    by blast+
  from run_keeps [OF assms(3) lt1] have
    m2: "messages s2 i = (messages s1 i)\<lparr>isDeleted := isDeleted (messages s2 i)\<rparr>"
    and mono: "isDeleted (messages s1 i) \<longrightarrow> isDeleted (messages s2 i)"
    by blast+
  have "messages s2 i = \<lparr>encryptedSender = sender, recipient = r, contentCID = c,
      encryptedKey = key, timestamp = block_timestamp e, isDeleted = isDeleted (messages s2 i)\<rparr>"
    by (subst m2, subst m1, subst m) simp
  then have "encryptedSender (messages s2 i) = sender" "recipient (messages s2 i) = r"
    "contentCID (messages s2 i) = c" "encryptedKey (messages s2 i) = key"
    "timestamp (messages s2 i) = block_timestamp e"
    by (metis Message.select_convs)+
  with v mono m show ?thesis by simp
qed

theorem message_fields_fixed_witness:
  "(let s = fst (run accept_all init [(caller 7, SendMessage 1 ''QmX'' 5 [] 6 [])]);
        s1 = fst (run accept_all s [(caller 1, DeleteMessage 0)]);
        s2 = fst (run accept_all s1
               [(caller 8, SendMessage 2 ''QmY'' 8 [] 9 []), (caller 1, DeleteMessage 0)])
    in sendMessage accept_all init (caller 7) 1 ''QmX'' 5 [] 6 [] = Inr (0, s) \<and>
       isDeleted (messages s1 0) \<and> isDeleted (messages s2 0) \<and>
       encryptedSender (messages s2 0) = 5 \<and> recipient (messages s2 0) = 1 \<and>
       contentCID (messages s2 0) = ''QmX'' \<and> encryptedKey (messages s2 0) = 6 \<and>
       timestamp (messages s2 0) = 1000)"
proof -
  let ?s = "fst (run accept_all init [(caller 7, SendMessage 1 ''QmX'' 5 [] 6 [])])"
  let ?cs = "[(caller 1, DeleteMessage 0)]"
  let ?s1 = "fst (run accept_all ?s ?cs)"
  let ?cs' = "[(caller 8, SendMessage 2 ''QmY'' 8 [] 9 []), (caller 1, DeleteMessage 0)]"
  let ?s2 = "fst (run accept_all ?s1 ?cs')"
  have h0: "sendMessage accept_all init (caller 7) 1 ''QmX'' 5 [] 6 [] = Inr (0, ?s)"
    by (simp add: contract_defs)
  have h1: "run accept_all ?s ?cs = (?s1, snd (run accept_all ?s ?cs))"
    by (rule prod.collapse [symmetric])
  have h2: "run accept_all ?s1 ?cs' = (?s2, snd (run accept_all ?s1 ?cs'))"
    by (rule prod.collapse [symmetric])
  have d1: "isDeleted (messages ?s1 0)"
    by (simp add: contract_defs)
  have v: "accept_all (caller 7) 5 [] = Some 5" "accept_all (caller 7) 6 [] = Some 6"
    "block_timestamp (caller 7) = 1000"
    by (simp_all add: accept_all_def caller_def)
  from message_fields_fixed [OF h0 h1 h2] d1
  have "isDeleted (messages ?s2 0) \<and>
       encryptedSender (messages ?s2 0) = 5 \<and> recipient (messages ?s2 0) = 1 \<and>
       contentCID (messages ?s2 0) = ''QmX'' \<and> encryptedKey (messages ?s2 0) = 6 \<and>
       timestamp (messages ?s2 0) = 1000"
    unfolding v by (metis option.inject)
  with h0 d1 show ?thesis unfolding Let_def by blast
qed

subsection \<open>The received index\<close>

text \<open>
  C8. A successful \<open>sendMessage\<close> to \<open>a\<close> appends the new id at the end of
  \<open>getReceivedMessagesOf a\<close> and changes the list of no other address. Over any
  history the list of an address only grows at its end. After any history from
  deployment it holds, in increasing order and once each, exactly the ids created so
  far whose recipient is that address.
\<close>

theorem received_index_append_only:
  "(sendMessage V s e a c es sp ek kp = Inr (i, s') \<longrightarrow>
      getReceivedMessagesOf s' a = getReceivedMessagesOf s a @ [i] \<and>
      (\<forall>b. b \<noteq> a \<longrightarrow> getReceivedMessagesOf s' b = getReceivedMessagesOf s b)) \<and>
   (run V s cs = (t, rs) \<longrightarrow>
      (\<exists>ys. getReceivedMessagesOf t a = getReceivedMessagesOf s a @ ys)) \<and>
   (run V init cs = (u, rs') \<longrightarrow>
      getReceivedMessagesOf u a =
        filter (\<lambda>j. recipient (messages u j) = a)
          (map of_nat [0..<unat (getTotalMessages u)]))"
proof -
  have sent: "getReceivedMessagesOf s' a = getReceivedMessagesOf s a @ [i] \<and>
      (\<forall>b. b \<noteq> a \<longrightarrow> getReceivedMessagesOf s' b = getReceivedMessagesOf s b)"
    if "sendMessage V s e a c es sp ek kp = Inr (i, s')"
    using sendMessage_Inr [OF that] by (auto simp: getReceivedMessagesOf_def)
  have grows: "\<exists>ys. getReceivedMessagesOf t a = getReceivedMessagesOf s a @ ys"
    if "run V s cs = (t, rs)"
    using run_received_grows [OF that] by (simp add: getReceivedMessagesOf_def)
  have once: "getReceivedMessagesOf u a =
        filter (\<lambda>j. recipient (messages u j) = a)
          (map of_nat [0..<unat (getTotalMessages u)])"
    if "run V init cs = (u, rs')"
    using run_indexed [OF that indexed_init]
    by (simp add: indexed_def getReceivedMessagesOf_def getTotalMessages_def)
  from sent grows once show ?thesis by blast
qed

theorem received_index_append_only_witness:
  "(let s = fst (run accept_all init [(caller 7, SendMessage 1 ''QmX'' 5 [] 6 [])]);
        t = fst (run accept_all s
               [(caller 1, DeleteMessage 0), (caller 8, SendMessage 2 ''QmY'' 8 [] 9 [])])
    in sendMessage accept_all init (caller 7) 1 ''QmX'' 5 [] 6 [] = Inr (0, s) \<and>
       getReceivedMessagesOf s 1 = getReceivedMessagesOf init 1 @ [0] \<and>
       (\<exists>ys. getReceivedMessagesOf t 1 = getReceivedMessagesOf s 1 @ ys) \<and>
       getReceivedMessagesOf s 1 =
         filter (\<lambda>j. recipient (messages s j) = 1)
           (map of_nat [0..<unat (getTotalMessages s)]))"
proof -
  let ?c0 = "[(caller 7, SendMessage 1 ''QmX'' 5 [] 6 [])]"
  let ?s = "fst (run accept_all init ?c0)"
  let ?cs = "[(caller 1, DeleteMessage 0), (caller 8, SendMessage 2 ''QmY'' 8 [] 9 [])]"
  let ?t = "fst (run accept_all ?s ?cs)"
  have h0: "sendMessage accept_all init (caller 7) 1 ''QmX'' 5 [] 6 [] = Inr (0, ?s)"
    by (simp add: contract_defs)
  have h1: "run accept_all ?s ?cs = (?t, snd (run accept_all ?s ?cs))"
    by (rule prod.collapse [symmetric])
  have h2: "run accept_all init ?c0 = (?s, snd (run accept_all init ?c0))"
    by (rule prod.collapse [symmetric])
  from received_index_append_only
    [of accept_all init "caller 7" 1 "''QmX''" 5 "[]" 6 "[]" 0 ?s]
    h0
  have a: "getReceivedMessagesOf ?s 1 = getReceivedMessagesOf init 1 @ [0]"
    by blast
  from received_index_append_only
    [of accept_all ?s _ 1 _ _ _ _ _ _ _ ?cs ?t "snd (run accept_all ?s ?cs)"]
    h1
  have b: "\<exists>ys. getReceivedMessagesOf ?t 1 = getReceivedMessagesOf ?s 1 @ ys"
    by blast
  from received_index_append_only
    [of accept_all _ _ 1 _ _ _ _ _ _ _ ?c0 _ _ ?s "snd (run accept_all init ?c0)"]
    h2
  have c: "getReceivedMessagesOf ?s 1 =
         filter (\<lambda>j. recipient (messages ?s j) = 1)
           (map of_nat [0..<unat (getTotalMessages ?s)])"
    by blast
  from h0 a b c show ?thesis unfolding Let_def by blast
qed

subsection \<open>Ids that were never created\<close>

text \<open>
  The zero address signs no transaction. A history whose calls all come from a
  non-zero sender leaves every slot at or above \<open>messageCount\<close> unwritten.
  \<^medskip>
  C9. For an id at or above \<open>getTotalMessages\<close>, \<open>getMessageMetadata\<close> does not fail,
  for any caller: it returns the zero address, the empty locator, timestamp 0 and
  \<open>isDeleted = false\<close>.
\<close>

theorem metadata_of_absent_id:
  assumes "run V init cs = (s, rs)" and "list_all (\<lambda>(e, c). msg_sender e \<noteq> 0) cs"
    and "getTotalMessages s \<le> i"
  shows "getMessageMetadata s i = (0, [], 0, False) \<and>
         exec V s e (GetMessageMetadata i) = (s, Inr (RMetadata (0, [], 0, False)))"
proof -
  from run_fresh [OF assms(1,2) fresh_init] assms(3)
  have "messages s i = zero_Message"
    by (simp add: fresh_def getTotalMessages_def)
  then show ?thesis
    by (simp add: getMessageMetadata_def zero_Message_def)
qed

theorem metadata_of_absent_id_witness:
  "(let s = fst (run accept_all init [(caller 7, SendMessage 1 ''QmX'' 5 [] 6 [])])
    in getTotalMessages s = 1 \<and> getMessageMetadata s 5 = (0, [], 0, False) \<and>
       exec accept_all s (caller 3) (GetMessageMetadata 5) =
         (s, Inr (RMetadata (0, [], 0, False))))"
proof -
  let ?c0 = "[(caller 7, SendMessage 1 ''QmX'' 5 [] 6 [])]"
  let ?s = "fst (run accept_all init ?c0)"
  have h0: "run accept_all init ?c0 = (?s, snd (run accept_all init ?c0))"
    by (rule prod.collapse [symmetric])
  have h1: "list_all (\<lambda>(e, c). msg_sender e \<noteq> 0) ?c0"
    by (simp add: caller_def)
  have n: "getTotalMessages ?s = 1"
    by (simp add: contract_defs)
  have h2: "getTotalMessages ?s \<le> 5"
    by (simp only: n) simp
  from metadata_of_absent_id [OF h0 h1 h2, of "caller 3"] n
  show ?thesis unfolding Let_def by blast
qed

text \<open>
  C10. For an id at or above \<open>getTotalMessages\<close>, the slot is not deleted and its
  recipient is the zero address, so \<open>getMessage\<close> reverts with "Not authorized" (an
  \<open>AuthorizationError\<close>) for every caller but the zero address: the same revert as for
  a stranger reading an existing message.
\<close>

theorem getMessage_of_absent_id:
  assumes "run V init cs = (s, rs)" and "list_all (\<lambda>(e, c). msg_sender e \<noteq> 0) cs"
    and "getTotalMessages s \<le> i" and "msg_sender e \<noteq> 0"
  shows "\<not> isDeleted (messages s i) \<and> recipient (messages s i) = 0 \<and>
         getMessage s e i = Inl (Revert ''Not authorized'') \<and>
         kind_of (Revert ''Not authorized'') = AuthorizationError \<and>
         exec V s e (GetMessage i) = (s, Inl (Revert ''Not authorized''))"
proof -
  from run_fresh [OF assms(1,2) fresh_init] assms(3)
  have "messages s i = zero_Message"
    by (simp add: fresh_def getTotalMessages_def)
  with assms(4) show ?thesis
    by (auto simp: getMessage_def zero_Message_def)
qed

theorem getMessage_of_absent_id_witness:
  "(let s = fst (run accept_all init [(caller 7, SendMessage 1 ''QmX'' 5 [] 6 [])])
    in getTotalMessages s = 1 \<and>
       getMessage s (caller 3) 5 = Inl (Revert ''Not authorized'') \<and>
       getMessage s (caller 3) 1 = Inl (Revert ''Not authorized''))"
proof -
  let ?c0 = "[(caller 7, SendMessage 1 ''QmX'' 5 [] 6 [])]"
  let ?s = "fst (run accept_all init ?c0)"
  have h0: "run accept_all init ?c0 = (?s, snd (run accept_all init ?c0))"
    by (rule prod.collapse [symmetric])
  have h1: "list_all (\<lambda>(e, c). msg_sender e \<noteq> 0) ?c0"
    by (simp add: caller_def)
  have n: "getTotalMessages ?s = 1"
    by (simp add: contract_defs)
  have h2: "getTotalMessages ?s \<le> 5" and h2': "getTotalMessages ?s \<le> 1"
    by (simp_all only: n) simp_all
  have h3: "msg_sender (caller 3) \<noteq> 0"
    by (simp add: caller_def)
  from getMessage_of_absent_id [OF h0 h1 h2 h3] getMessage_of_absent_id [OF h0 h1 h2' h3] n
  show ?thesis unfolding Let_def by blast
qed

section \<open>Properties of the content cipher\<close>

subsection \<open>Hex text decodes to the bytes it encodes\<close>

lemma hexDigit_cases:
  assumes "d < 16"
  shows "hexValue (hexDigit d) = Some d \<and> \<not> isLineTerminator (hexDigit d) \<and>
         \<not> isWhiteSpace (hexDigit d) \<and> hexDigit d \<noteq> CHR ''-'' \<and> hexDigit d \<noteq> CHR ''+'' \<and>
         hexDigit d \<noteq> CHR ''x'' \<and> hexDigit d \<noteq> CHR ''X''"
proof -
  from assms have "d = 0 \<or> d = 1 \<or> d = 2 \<or> d = 3 \<or> d = 4 \<or> d = 5 \<or> d = 6 \<or> d = 7 \<or>
      d = 8 \<or> d = 9 \<or> d = 10 \<or> d = 11 \<or> d = 12 \<or> d = 13 \<or> d = 14 \<or> d = 15"
    by arith
  then show ?thesis
    by (elim disjE)
       (simp_all add: hexDigit_def hexValue_def isLineTerminator_def isWhiteSpace_def)
qed

lemma unat_byte: "unat (b :: 8 word) < 256"
  using unsigned_less [of b, where 'a = nat] by simp

lemma byte_hex:
  "padStart 2 (CHR ''0'') (toString16 (unat (b :: 8 word))) =
     [hexDigit (unat b div 16), hexDigit (unat b mod 16)]"
proof (cases "unat b < 16")
  case True
  then have "toString16 (unat b) = [hexDigit (unat b)]"
    by (subst toString16.simps) simp
  with True show ?thesis by (simp add: padStart_def hexDigit_def)
next
  case False
  have "unat b div 16 < 16" using unat_byte [of b] by simp
  then have "toString16 (unat b div 16) = [hexDigit (unat b div 16)]"
    by (subst toString16.simps) simp
  with False have "toString16 (unat b) = [hexDigit (unat b div 16), hexDigit (unat b mod 16)]"
    by (subst toString16.simps) simp
  then show ?thesis by (simp add: padStart_def)
qed

lemma parse_pair:
  assumes "h < 16" and "l < 16"
  shows "parseInt16 [hexDigit h, hexDigit l] = Some (int (16 * h + l))"
  using hexDigit_cases [OF assms(1)] hexDigit_cases [OF assms(2)]
  by (simp add: parseInt16_def Let_def)

lemma matchPairs_toHex:
  "matchPairs (toHex bs) =
     map (\<lambda>b. [hexDigit (unat b div 16), hexDigit (unat b mod 16)]) bs"
proof (induction bs)
  case Nil
  then show ?case by (simp add: toHex_def)
next
  case (Cons b bs)
  have "unat b div 16 < 16" using unat_byte [of b] by simp
  from hexDigit_cases [OF this] have hi: "\<not> isLineTerminator (hexDigit (unat b div 16))"
    by simp
  have "unat b mod 16 < 16" by simp
  from hexDigit_cases [OF this] have lo: "\<not> isLineTerminator (hexDigit (unat b mod 16))"
    by simp
  have "toHex (b # bs) = hexDigit (unat b div 16) # hexDigit (unat b mod 16) # toHex bs"
    by (simp add: toHex_def byte_hex)
  with hi lo Cons.IH show ?case by simp
qed

lemma byte_of_pair:
  "toUint8 (parseInt16 [hexDigit (unat (b :: 8 word) div 16), hexDigit (unat b mod 16)]) = b"
proof -
  have "unat b div 16 < 16" using unat_byte [of b] by simp
  moreover have "unat b mod 16 < 16" by simp
  ultimately have "parseInt16 [hexDigit (unat b div 16), hexDigit (unat b mod 16)] =
      Some (int (16 * (unat b div 16) + unat b mod 16))"
    by (rule parse_pair)
  also have "16 * (unat b div 16) + unat b mod 16 = unat b" by simp
  finally show ?thesis by (simp add: toUint8_def)
qed

lemma fromHex_toHex:
  assumes "bs \<noteq> []"
  shows "fromHex (toHex bs) = Inr bs"
proof -
  from assms obtain p ps where
    "map (\<lambda>b. [hexDigit (unat b div 16), hexDigit (unat b mod 16)]) bs = p # ps"
    by (cases bs) auto
  then have "fromHex (toHex bs) =
      Inr (map (\<lambda>byte. toUint8 (parseInt16 byte))
             (map (\<lambda>b. [hexDigit (unat b div 16), hexDigit (unat b mod 16)]) bs))"
    by (simp add: fromHex_def matchPairs_toHex)
  also have "\<dots> = Inr bs"
    by (simp add: o_def byte_of_pair)
  finally show ?thesis .
qed

lemma example_web_aes_cbc: "aes_cbc example_web"
  unfolding aes_cbc_def
proof (intro allI impI)
  fix k iv m :: bytes
  assume len: "length k = 32 \<and> length iv = 16"
  define n where "n = 16 - length m mod 16"
  let ?c = "m @ replicate n (of_nat n :: 8 word)"
  have n: "0 < n" "n \<le> 16" by (simp_all add: n_def)
  then have u: "unat (of_nat n :: 8 word) = n"
    by (simp add: unat_of_nat)
  have l: "last ?c = of_nat n" using n by simp
  have "importKey example_web k Encrypt = Some k" "importKey example_web k Decrypt = Some k"
    using len by (simp_all add: example_web_def)
  moreover have "encrypt example_web iv k m = Some ?c"
    using len by (simp add: example_web_def n_def)
  moreover have "?c \<noteq> []" using n by simp
  moreover have "decrypt example_web iv k ?c = Some m"
    using len n by (simp add: example_web_def l u del: last_append last_replicate)
  ultimately show "\<exists>ke kd c. importKey example_web k Encrypt = Some ke \<and>
      importKey example_web k Decrypt = Some kd \<and>
      encrypt example_web iv ke m = Some c \<and> c \<noteq> [] \<and> decrypt example_web iv kd c = Some m"
    by blast
qed

subsection \<open>Round trip\<close>

text \<open>
  C6. For every byte sequence \<open>content\<close>, \<open>encryptFileWithAES\<close> returns the hex
  ciphertext, the key it drew and the hex initialisation vector; the vector decodes to
  the one drawn, and \<open>decryptFileContent\<close> on that ciphertext, key and vector returns
  exactly \<open>content\<close>. The cipher of the browser is taken with its contract
  \<open>aes_cbc\<close>; the key is the 32 bytes and the vector the 16 bytes that
  \<open>crypto.getRandomValues\<close> filled.
\<close>

theorem decrypt_inverts_encrypt:
  assumes "aes_cbc W" and "length aesKey = 32" and "length iv = 16"
  shows "\<exists>encrypted ivHex.
           encryptFileWithAES W aesKey iv (Buffer content) = Inr (encrypted, aesKey, ivHex) \<and>
           fromHex ivHex = Inr iv \<and>
           decryptFileContent W encrypted aesKey iv = Inr content"
proof -
  from assms obtain ke kd c where
    ke: "importKey W aesKey Encrypt = Some ke" and kd: "importKey W aesKey Decrypt = Some kd"
    and enc: "encrypt W iv ke content = Some c" and ne: "c \<noteq> []"
    and dec: "decrypt W iv kd c = Some content"
    unfolding aes_cbc_def by blast
  from assms(3) have "iv \<noteq> []" by auto
  then have iv: "fromHex (toHex iv) = Inr iv" by (rule fromHex_toHex)
  have e: "encryptFileWithAES W aesKey iv (Buffer content) = Inr (toHex c, aesKey, toHex iv)"
    by (simp add: encryptFileWithAES_def ke enc)
  have d: "decryptFileContent W (toHex c) aesKey iv = Inr content"
    by (simp add: decryptFileContent_def kd fromHex_toHex [OF ne] dec)
  from e iv d show ?thesis by blast
qed

theorem decrypt_inverts_encrypt_witness:
  "aes_cbc example_web \<and>
   encryptFileWithAES example_web (replicate 32 7) (replicate 16 9) (Buffer [104, 105]) =
     Inr (''68690e0e0e0e0e0e0e0e0e0e0e0e0e0e'', replicate 32 7,
          ''09090909090909090909090909090909'') \<and>
   fromHex ''09090909090909090909090909090909'' = Inr (replicate 16 9) \<and>
   decryptFileContent example_web ''68690e0e0e0e0e0e0e0e0e0e0e0e0e0e'' (replicate 32 7)
     (replicate 16 9) = Inr [104, 105]"
proof -
  have k: "length (replicate 32 (7 :: 8 word)) = 32" and i: "length (replicate 16 (9 :: 8 word)) = 16"
    by simp_all
  have e: "encryptFileWithAES example_web (replicate 32 7) (replicate 16 9) (Buffer [104, 105]) =
     Inr (''68690e0e0e0e0e0e0e0e0e0e0e0e0e0e'', replicate 32 7,
          ''09090909090909090909090909090909'')"
    by code_simp
  from decrypt_inverts_encrypt [OF example_web_aes_cbc k i, of "[104, 105]"] e
  show ?thesis using example_web_aes_cbc by auto
qed

end
